theory Spec2Isabelle
  imports Complex_Main
begin

section \<open>The translation cache (\<open>gamelingo/translate.py\<close>, class \<open>TranslationCache\<close>)\<close>

text \<open>
  The cache is a Python \<open>OrderedDict\<close>: a dictionary that remembers the order of its keys.
  It is modelled as an association list, oldest entry first, newest entry last.
  \<open>max_size\<close> is a Python \<open>int\<close> that the constructor stores unchecked.
\<close>

record ('k, 'v) TranslationCache =
  max_size :: int
  cache :: "('k \<times> 'v) list"

definition TranslationCache_init :: "int \<Rightarrow> ('k, 'v) TranslationCache" where
  "TranslationCache_init n = \<lparr>max_size = n, cache = []\<rparr>"

definition cache_keys :: "('k, 'v) TranslationCache \<Rightarrow> 'k list" where
  "cache_keys c = map fst (cache c)"

text \<open>\<open>OrderedDict.move_to_end(k)\<close> for a key that is present with value \<open>v\<close>.\<close>

definition move_to_end :: "'k \<Rightarrow> 'v \<Rightarrow> ('k \<times> 'v) list \<Rightarrow> ('k \<times> 'v) list" where
  "move_to_end k v od = filter (\<lambda>e. fst e \<noteq> k) od @ [(k, v)]"

text \<open>\<open>od[k] = v\<close>: an existing key keeps its place, a new key goes to the end.\<close>

definition setitem :: "'k \<Rightarrow> 'v \<Rightarrow> ('k \<times> 'v) list \<Rightarrow> ('k \<times> 'v) list" where
  "setitem k v od =
     (if k \<in> fst ` set od then map (\<lambda>e. if fst e = k then (k, v) else e) od
      else od @ [(k, v)])"

text \<open>\<open>od.popitem(last=False)\<close> on a non-empty dictionary drops the oldest entry.\<close>

definition popitem_first :: "('k \<times> 'v) list \<Rightarrow> ('k \<times> 'v) list" where
  "popitem_first od = drop 1 od"

text \<open>\<open>get\<close> returns the value (or \<open>None\<close>) together with the updated cache.\<close>

definition get :: "('k, 'v) TranslationCache \<Rightarrow> 'k \<Rightarrow> 'v option \<times> ('k, 'v) TranslationCache" where
  "get c text =
     (case map_of (cache c) text of
        Some v \<Rightarrow> (Some v, c\<lparr>cache := move_to_end text v (cache c)\<rparr>)
      | None \<Rightarrow> (None, c))"

definition put :: "('k, 'v) TranslationCache \<Rightarrow> 'k \<Rightarrow> 'v \<Rightarrow> ('k, 'v) TranslationCache" where
  "put c text translation =
     (case map_of (cache c) text of
        Some v \<Rightarrow> c\<lparr>cache := setitem text translation (move_to_end text v (cache c))\<rparr>
      | None \<Rightarrow>
          (let od = setitem text translation (cache c)
           in if int (length od) > max_size c then c\<lparr>cache := popitem_first od\<rparr>
              else c\<lparr>cache := od\<rparr>))"

definition clear :: "('k, 'v) TranslationCache \<Rightarrow> ('k, 'v) TranslationCache" where
  "clear c = c\<lparr>cache := []\<rparr>"

subsection \<open>Histories of cache operations\<close>

datatype ('k, 'v) cache_op = Get 'k | Put 'k 'v | Clear

fun apply_op :: "('k, 'v) TranslationCache \<Rightarrow> ('k, 'v) cache_op \<Rightarrow> ('k, 'v) TranslationCache" where
  "apply_op c (Get k) = snd (get c k)"
| "apply_op c (Put k v) = put c k v"
| "apply_op c Clear = clear c"

fun run :: "('k, 'v) TranslationCache \<Rightarrow> ('k, 'v) cache_op list \<Rightarrow> ('k, 'v) TranslationCache" where
  "run c [] = c"
| "run c (op # ops) = run (apply_op c op) ops"

text \<open>
  An operation touches a key when it is a \<open>put\<close> of that key or a \<open>get\<close> that hits it.
  \<open>last_use c t ops S\<close> runs the history \<open>ops\<close> from cache \<open>c\<close> at time \<open>t\<close> and records,
  for every key, the time of the last operation that touched it (starting from the
  record \<open>S\<close>). It only observes the run; the cache operations themselves keep no clock.
\<close>

fun touches :: "('k, 'v) TranslationCache \<Rightarrow> ('k, 'v) cache_op \<Rightarrow> 'k \<Rightarrow> bool" where
  "touches c (Get k') k = (k' = k \<and> map_of (cache c) k \<noteq> None)"
| "touches c (Put k' v) k = (k' = k)"
| "touches c Clear k = False"

fun last_use ::
  "('k, 'v) TranslationCache \<Rightarrow> nat \<Rightarrow> ('k, 'v) cache_op list \<Rightarrow> ('k \<Rightarrow> nat option) \<Rightarrow> 'k \<Rightarrow> nat option" where
  "last_use c t [] S = S"
| "last_use c t (op # ops) S =
     last_use (apply_op c op) (Suc t) ops (\<lambda>k. if touches c op k then Some t else S k)"

text \<open>The keys of a cache are in recency order when their last uses strictly increase.\<close>

definition recency_ordered :: "('k \<Rightarrow> nat option) \<Rightarrow> nat \<Rightarrow> 'k list \<Rightarrow> bool" where
  "recency_ordered S t ks \<longleftrightarrow>
     (\<forall>k \<in> set ks. \<exists>u < t. S k = Some u) \<and> sorted_wrt (\<lambda>a b. the (S a) < the (S b)) ks"

text \<open>The representation invariant of the cache: no more entries than \<open>max_size\<close>, no key twice.\<close>

definition bounded :: "('k, 'v) TranslationCache \<Rightarrow> bool" where
  "bounded c \<longleftrightarrow> int (length (cache c)) \<le> max_size c \<and> distinct (cache_keys c)"

section \<open>Edit distance and text similarity (\<open>screentranslate/utils.py\<close>)\<close>

text \<open>
  \<open>translate.py\<close> and \<open>ocr.py\<close> import these functions from the \<open>utils\<close> module of their
  package; its source is \<open>screentranslate/utils.py\<close>.

  Python exceptions that the modelled code could raise are values. A list read out of
  range raises \<open>IndexError\<close>, a division by zero \<open>ZeroDivisionError\<close>.
\<close>

datatype py_error = IndexError | ZeroDivisionError

definition getitem :: "'a list \<Rightarrow> nat \<Rightarrow> py_error + 'a" where
  "getitem xs i = (if i < length xs then Inr (xs ! i) else Inl IndexError)"

text \<open>\<open>xs[-1]\<close>\<close>

definition getitem_last :: "'a list \<Rightarrow> py_error + 'a" where
  "getitem_last xs = (if xs = [] then Inl IndexError else Inr (last xs))"

text \<open>
  The inner loop \<open>for j, c2 in enumerate(s2)\<close> of \<open>levenshtein_distance\<close>: \<open>j\<close> counts the
  characters of \<open>s2\<close> consumed so far, the list argument holds the remaining ones.
  Distances are lengths and sums of lengths, hence natural numbers (unbounded, as
  Python's integers are).
\<close>

fun inner_loop :: "'a \<Rightarrow> nat list \<Rightarrow> nat \<Rightarrow> 'a list \<Rightarrow> nat list \<Rightarrow> py_error + nat list" where
  "inner_loop c1 previous_row j [] current_row = Inr current_row"
| "inner_loop c1 previous_row j (c2 # s2) current_row =
     (case getitem previous_row (j + 1) of Inl e \<Rightarrow> Inl e | Inr p1 \<Rightarrow>
      (case getitem current_row j of Inl e \<Rightarrow> Inl e | Inr cj \<Rightarrow>
       (case getitem previous_row j of Inl e \<Rightarrow> Inl e | Inr p0 \<Rightarrow>
          (let insertions = p1 + 1;
               deletions = cj + 1;
               substitutions = p0 + (if c1 \<noteq> c2 then 1 else 0)
           in inner_loop c1 previous_row (j + 1) s2
                (current_row @ [min insertions (min deletions substitutions)])))))"

text \<open>The outer loop \<open>for i, c1 in enumerate(s1)\<close>.\<close>

fun outer_loop :: "nat \<Rightarrow> 'a list \<Rightarrow> 'a list \<Rightarrow> nat list \<Rightarrow> py_error + nat list" where
  "outer_loop i [] s2 previous_row = Inr previous_row"
| "outer_loop i (c1 # s1) s2 previous_row =
     (case inner_loop c1 previous_row 0 s2 [i + 1] of
        Inl e \<Rightarrow> Inl e
      | Inr current_row \<Rightarrow> outer_loop (i + 1) s1 s2 current_row)"

function levenshtein_distance :: "'a list \<Rightarrow> 'a list \<Rightarrow> py_error + nat" where
  "levenshtein_distance s1 s2 =
     (if length s1 < length s2 then levenshtein_distance s2 s1
      else if length s2 = 0 then Inr (length s1)
      else (case outer_loop 0 s1 s2 [0..<length s2 + 1] of
              Inl e \<Rightarrow> Inl e
            | Inr previous_row \<Rightarrow> getitem_last previous_row))"
  by pat_completeness auto
termination
  by (relation "measure (\<lambda>(s1, s2). if length s1 < length s2 then 1 else 0)") auto

declare levenshtein_distance.simps [simp del]

subsection \<open>What an edit distance is\<close>

text \<open>
  One single-character edit: an insertion, a deletion or a substitution at any place.
  \<open>(edit1 ^^ n) a b\<close> says that \<open>n\<close> such edits in a row transform \<open>a\<close> into \<open>b\<close>.
\<close>

inductive edit1 :: "'a list \<Rightarrow> 'a list \<Rightarrow> bool" where
  insertion: "edit1 (xs @ ys) (xs @ c # ys)"
| deletion: "edit1 (xs @ c # ys) (xs @ ys)"
| substitution: "edit1 (xs @ c # ys) (xs @ d # ys)"

text \<open>The textbook recurrence, used as the link between the loops and \<open>edit1\<close>.\<close>

fun ed :: "'a list \<Rightarrow> 'a list \<Rightarrow> nat" where
  "ed [] ys = length ys"
| "ed (x # xs) [] = Suc (length xs)"
| "ed (x # xs) (y # ys) =
     min (ed xs (y # ys) + 1) (min (ed (x # xs) ys + 1) (ed xs ys + (if x \<noteq> y then 1 else 0)))"

text \<open>Row \<open>p\<close> of the table: the distances from the (reversed) prefix \<open>p\<close> to every prefix of \<open>s2\<close>.\<close>

definition row_of :: "'a list \<Rightarrow> 'a list \<Rightarrow> nat list" where
  "row_of p s2 = map (\<lambda>j. ed p (rev (take j s2))) [0..<length s2 + 1]"

subsection \<open>Strings and similarity\<close>

text \<open>
  A Python \<open>str\<close> is a sequence of Unicode code points, here natural numbers (\<open>ord\<close>).
  \<open>str.strip()\<close> and \<open>str.lower()\<close> depend on the Unicode tables of the interpreter, which
  are not part of the repository: they are parameters. \<open>isspace\<close> says which code points
  \<open>strip\<close> removes, \<open>lower\<close> is \<open>str.lower\<close> on whole strings (it may change lengths).
  Python floats are modelled as real numbers.
\<close>

type_synonym codepoint = nat
type_synonym str = "codepoint list"

record unicode_db =
  isspace :: "codepoint \<Rightarrow> bool"
  lower :: "str \<Rightarrow> str"

definition strip :: "unicode_db \<Rightarrow> str \<Rightarrow> str" where
  "strip U s = rev (dropWhile (isspace U) (rev (dropWhile (isspace U) s)))"

text \<open>A string literal of the source, as code points.\<close>

definition lit :: "string \<Rightarrow> str" where
  "lit s = map of_char s"

text \<open>
  The tables restricted to ASCII, where \<open>strip\<close> removes the characters 9 to 13, 28 to 31
  and the blank, and \<open>lower\<close> maps \<open>A\<close> to \<open>Z\<close> onto \<open>a\<close> to \<open>z\<close>. On ASCII text they are
  what Python computes; they serve to run the model on concrete ASCII inputs.
\<close>

definition ascii_isspace :: "codepoint \<Rightarrow> bool" where
  "ascii_isspace c \<longleftrightarrow> c = 32 \<or> (9 \<le> c \<and> c \<le> 13) \<or> (28 \<le> c \<and> c \<le> 31)"

definition ascii_lower :: "codepoint \<Rightarrow> codepoint" where
  "ascii_lower c = (if 65 \<le> c \<and> c \<le> 90 then c + 32 else c)"

definition ascii :: unicode_db where
  "ascii = \<lparr>isspace = ascii_isspace, lower = map ascii_lower\<rparr>"

definition calculate_text_similarity_levenshtein ::
  "unicode_db \<Rightarrow> str \<Rightarrow> str \<Rightarrow> py_error + real" where
  "calculate_text_similarity_levenshtein U text1 text2 =
     (if text1 = [] \<or> text2 = [] then Inr 0
      else
        (let t1 = lower U (strip U text1);
             t2 = lower U (strip U text2)
         in if t1 = t2 then Inr 1
            else
              (case levenshtein_distance t1 t2 of
                 Inl e \<Rightarrow> Inl e
               | Inr distance \<Rightarrow>
                   (let max_len = max (length t1) (length t2)
                    in if max_len = 0 then Inr 0
                       else Inr (1 - real distance / real max_len)))))"

section \<open>The translator (\<open>gamelingo/translate.py\<close>, class \<open>Translator\<close>)\<close>

text \<open>
  The translation provider (\<open>deep_translator.GoogleTranslator\<close>) is outside the repository.
  For one call of a method, \<open>construct\<close> says whether \<open>GoogleTranslator(source=..., target=...)\<close>
  returns an object (otherwise it raises), and \<open>respond text\<close> is what
  \<open>translator.translate(text)\<close> does: \<open>Some\<close> translation, or \<open>None\<close> when it raises.
\<close>

record provider =
  construct :: bool
  respond :: "str \<Rightarrow> str option"

text \<open>
  The fields of a \<open>Translator\<close>. \<open>tr_cache\<close> is the attribute \<open>cache\<close>; \<open>translator\<close> is
  \<open>True\<close> when the attribute holds a provider object and \<open>False\<close> when it is \<open>None\<close>.
  \<open>provider_calls\<close> is not an attribute: it records the texts handed to
  \<open>translator.translate\<close>, which makes the calls to the provider observable.
  Messages printed to \<open>stderr\<close> are left out.
\<close>

record Translator =
  source_lang :: str
  target_lang :: str
  similarity_threshold :: real
  tr_cache :: "(str, str) TranslationCache"
  last_source_text :: str
  last_translation :: str
  translator :: bool
  provider_calls :: "str list"

definition Translator_init :: "provider \<Rightarrow> str \<Rightarrow> str \<Rightarrow> int \<Rightarrow> real \<Rightarrow> Translator" where
  "Translator_init P src tgt cache_size threshold =
     \<lparr>source_lang = src, target_lang = tgt, similarity_threshold = threshold,
      tr_cache = TranslationCache_init cache_size,
      last_source_text = [], last_translation = [],
      translator = construct P, provider_calls = []\<rparr>"

text \<open>The \<open>except Exception\<close> branch of \<open>translate\<close>.\<close>

definition translation_error :: "Translator \<Rightarrow> str \<Rightarrow> str \<times> Translator" where
  "translation_error self text =
     (if last_translation self \<noteq> [] then (last_translation self @ lit '' [error]'', self)
      else (text, self))"

text \<open>The \<open>try\<close> block of \<open>translate\<close>.\<close>

definition perform_translation :: "provider \<Rightarrow> Translator \<Rightarrow> str \<Rightarrow> str \<times> Translator" where
  "perform_translation P self text =
     (if \<not> translator self \<and> \<not> construct P then translation_error self text
      else
        (let self1 = self\<lparr>translator := True, provider_calls := provider_calls self @ [text]\<rparr>
         in case respond P text of
              None \<Rightarrow> translation_error self1 text
            | Some translation \<Rightarrow>
                (translation,
                 self1\<lparr>tr_cache := put (tr_cache self1) text translation,
                       last_source_text := text,
                       last_translation := translation\<rparr>)))"

definition translate ::
  "unicode_db \<Rightarrow> provider \<Rightarrow> Translator \<Rightarrow> str \<Rightarrow> bool \<Rightarrow> py_error + (str \<times> Translator)" where
  "translate U P self text0 force =
     (if text0 = [] \<or> strip U text0 = [] then Inr ([], self)
      else
        (let text = strip U text0
         in case (if \<not> force \<and> last_source_text self \<noteq> []
                  then (case calculate_text_similarity_levenshtein U text (last_source_text self) of
                          Inl e \<Rightarrow> Inl e
                        | Inr similarity \<Rightarrow> Inr (similarity \<ge> similarity_threshold self))
                  else Inr False) of
              Inl e \<Rightarrow> Inl e
            | Inr True \<Rightarrow> Inr (last_translation self, self)
            | Inr False \<Rightarrow>
                (case get (tr_cache self) text of
                   (Some cached, c) \<Rightarrow>
                     Inr (cached, self\<lparr>tr_cache := c, last_source_text := text,
                                       last_translation := cached\<rparr>)
                 | (None, c) \<Rightarrow> Inr (perform_translation P (self\<lparr>tr_cache := c\<rparr>) text))))"

definition set_languages :: "provider \<Rightarrow> Translator \<Rightarrow> str \<Rightarrow> str \<Rightarrow> Translator" where
  "set_languages P self src tgt =
     (if src \<noteq> source_lang self \<or> tgt \<noteq> target_lang self
      then (let self1 = self\<lparr>source_lang := src, target_lang := tgt\<rparr>
            in if construct P
               then self1\<lparr>translator := True, tr_cache := clear (tr_cache self1),
                          last_source_text := [], last_translation := []\<rparr>
               else self1)
      else self)"

definition clear_cache :: "Translator \<Rightarrow> Translator" where
  "clear_cache self =
     self\<lparr>tr_cache := clear (tr_cache self), last_source_text := [], last_translation := []\<rparr>"

text \<open>
  The three ways in which \<open>translate\<close> answers a text that is not blank: \<open>reuses_last\<close>
  is the test of the similarity shortcut, \<open>cached\<close> a hit in the cache, and
  \<open>provider_fails\<close> an exception in the \<open>try\<close> block.
\<close>

definition reuses_last :: "unicode_db \<Rightarrow> Translator \<Rightarrow> str \<Rightarrow> bool \<Rightarrow> bool" where
  "reuses_last U self text force \<longleftrightarrow>
     \<not> force \<and> last_source_text self \<noteq> [] \<and>
     (case calculate_text_similarity_levenshtein U text (last_source_text self) of
        Inl e \<Rightarrow> False
      | Inr similarity \<Rightarrow> similarity \<ge> similarity_threshold self)"

definition cached :: "Translator \<Rightarrow> str \<Rightarrow> bool" where
  "cached self text \<longleftrightarrow> map_of (cache (tr_cache self)) text \<noteq> None"

definition provider_fails :: "provider \<Rightarrow> Translator \<Rightarrow> str \<Rightarrow> bool" where
  "provider_fails P self text \<longleftrightarrow> (\<not> translator self \<and> \<not> construct P) \<or> respond P text = None"

subsection \<open>Concrete translators\<close>

text \<open>
  A provider that answers every text with \<open>hello\<close>, one that always raises, and the
  translator \<open>Translator("it", "en", 100, threshold)\<close> after its first call
  \<open>translate("Ciao")\<close> was answered by the former.
\<close>

definition demo_provider :: provider where
  "demo_provider = \<lparr>construct = True, respond = (\<lambda>text. Some (lit ''hello''))\<rparr>"

definition failing_provider :: provider where
  "failing_provider = \<lparr>construct = True, respond = (\<lambda>text. None)\<rparr>"

definition demo_translator :: "real \<Rightarrow> Translator" where
  "demo_translator threshold =
     \<lparr>source_lang = lit ''it'', target_lang = lit ''en'', similarity_threshold = threshold,
      tr_cache = \<lparr>max_size = 100, cache = [(lit ''Ciao'', lit ''hello'')]\<rparr>,
      last_source_text = lit ''Ciao'', last_translation = lit ''hello'',
      translator = True, provider_calls = [lit ''Ciao'']\<rparr>"

section \<open>OCR (\<open>gamelingo/ocr.py\<close>, class \<open>OCREngine\<close>)\<close>

subsection \<open>\<open>clean_ocr_text\<close> and \<open>calculate_image_hash\<close> (\<open>utils.py\<close>)\<close>

text \<open>\<open>text.split()\<close>: the maximal runs of characters that are not whitespace.\<close>

fun split_acc :: "(codepoint \<Rightarrow> bool) \<Rightarrow> str \<Rightarrow> str \<Rightarrow> str list" where
  "split_acc sp w [] = (if w = [] then [] else [w])"
| "split_acc sp w (c # cs) =
     (if sp c then (if w = [] then split_acc sp [] cs else w # split_acc sp [] cs)
      else split_acc sp (w @ [c]) cs)"

definition str_split :: "unicode_db \<Rightarrow> str \<Rightarrow> str list" where
  "str_split U s = split_acc (isspace U) [] s"

fun join :: "str \<Rightarrow> str list \<Rightarrow> str" where
  "join sep [] = []"
| "join sep [w] = w"
| "join sep (w # v # ws) = w @ sep @ join sep (v # ws)"

text \<open>\<open>text.replace(old, new)\<close> for the two-character pattern \<open>old = [a, b]\<close>.\<close>

fun replace2 :: "codepoint \<Rightarrow> codepoint \<Rightarrow> str \<Rightarrow> str \<Rightarrow> str" where
  "replace2 a b new (c # d # cs) =
     (if c = a \<and> d = b then new @ replace2 a b new cs else c # replace2 a b new (d # cs))"
| "replace2 a b new cs = cs"

text \<open>
  The two replacements turn the vertical bar (124) into \<open>I\<close> (73), and the two code
  points 239, 188 into \<open>0\<close> (48).
\<close>

definition clean_ocr_text :: "unicode_db \<Rightarrow> str \<Rightarrow> str" where
  "clean_ocr_text U text =
     (if text = [] then []
      else strip U (replace2 239 188 [48]
             (map (\<lambda>c. if c = 124 then 73 else c) (join [32] (str_split U text)))))"

text \<open>
  An image, as far as the code looks at it: its raw bytes (\<open>image.tobytes()\<close>) and its
  size. \<open>hashlib.md5(...).hexdigest()\<close> is a function from bytes to strings, a parameter.
\<close>

record image =
  tobytes :: "nat list"
  width :: nat
  height :: nat

definition calculate_image_hash :: "(nat list \<Rightarrow> str) \<Rightarrow> image \<Rightarrow> str" where
  "calculate_image_hash md5 img = md5 (tobytes img)"

subsection \<open>\<open>extract_text\<close>\<close>

text \<open>
  The libraries behind one call: \<open>preprocess_image\<close> stands for
  \<open>preprocess_image_for_ocr\<close>, whose body consists of calls to the imaging library, and
  \<open>image_to_string img lang psm\<close> for \<open>pytesseract.image_to_string\<close> with the page
  segmentation mode \<open>psm\<close>. Both return a value or raise.
\<close>

datatype ocr_exn = TesseractNotFoundError | OtherError

record ocr_env =
  preprocess_image :: "image \<Rightarrow> ocr_exn + image"
  image_to_string :: "image \<Rightarrow> str \<Rightarrow> nat \<Rightarrow> ocr_exn + str"

text \<open>
  The fields of an \<open>OCREngine\<close>; \<open>ocr_calls\<close> is not an attribute, it records the modes
  of the calls to \<open>image_to_string\<close> made so far.
\<close>

record OCREngine =
  preprocess :: bool
  last_text :: str
  last_image_hash :: "str option"
  ocr_calls :: "nat list"

text \<open>
  How a call of \<open>extract_text\<close> ends: it returns the text it found (or remembered), or it
  prints \<open>OCR error\<close> and returns the empty string, or it raises \<open>RuntimeError\<close>.
\<close>

datatype outcome = Returned str | Failed | Raised

fun returned_value :: "outcome \<Rightarrow> str option" where
  "returned_value (Returned s) = Some s"
| "returned_value Failed = Some []"
| "returned_value Raised = None"

text \<open>
  The loop \<open>for psm in psm_modes\<close>, with \<open>first = psm_modes[0]\<close>. It yields
  \<open>best_text\<close>, \<open>all_results\<close> (a dictionary, in insertion order) and the calls made.
  An exception inside the loop body goes on to the next mode.
\<close>

fun psm_loop ::
  "unicode_db \<Rightarrow> ocr_env \<Rightarrow> image \<Rightarrow> str \<Rightarrow> nat \<Rightarrow> nat list \<Rightarrow> (nat \<times> str) list \<Rightarrow> nat list
   \<Rightarrow> str \<times> (nat \<times> str) list \<times> nat list" where
  "psm_loop U E img language first [] all_results calls = ([], all_results, calls)"
| "psm_loop U E img language first (psm # rest) all_results calls =
     (case image_to_string E img language psm of
        Inl e \<Rightarrow> psm_loop U E img language first rest all_results (calls @ [psm])
      | Inr raw \<Rightarrow>
          (let text = clean_ocr_text U raw
           in if strip U text \<noteq> []
              then (if psm = first
                    then (text, setitem psm text all_results, calls @ [psm])
                    else psm_loop U E img language first rest
                           (setitem psm text all_results) (calls @ [psm]))
              else psm_loop U E img language first rest all_results (calls @ [psm])))"

text \<open>\<open>max(values, key=len)\<close>: the first of the longest values.\<close>

fun max_by_len :: "str list \<Rightarrow> str" where
  "max_by_len [] = []"
| "max_by_len (v # vs) = foldl (\<lambda>m x. if length x > length m then x else m) v vs"

definition extract_text ::
  "(nat list \<Rightarrow> str) \<Rightarrow> unicode_db \<Rightarrow> ocr_env \<Rightarrow> OCREngine \<Rightarrow> image \<Rightarrow> str
   \<Rightarrow> outcome \<times> OCREngine" where
  "extract_text md5 U E self img language =
     (let image_hash = calculate_image_hash md5 img
      in if Some image_hash = last_image_hash self then (Returned (last_text self), self)
         else
           (case (if preprocess self then preprocess_image E img else Inr img) of
              Inl TesseractNotFoundError \<Rightarrow> (Raised, self)
            | Inl OtherError \<Rightarrow> (Failed, self)
            | Inr processed_image \<Rightarrow>
                (let aspect_ratio =
                       (if width processed_image > 0
                        then real (height processed_image) / real (width processed_image)
                        else 1);
                     psm_modes = (if aspect_ratio > 3 / 10 then [6, 3, 7] else [7, 6, 3]);
                     (best, all_results, calls) =
                        psm_loop U E processed_image language (hd psm_modes) psm_modes []
                          (ocr_calls self);
                     best_text =
                       (if best = [] \<and> all_results \<noteq> [] then max_by_len (map snd all_results)
                        else best)
                 in (Returned best_text,
                     self\<lparr>last_text := best_text, last_image_hash := Some image_hash,
                           ocr_calls := calls\<rparr>))))"

text \<open>A one-pixel-high image, and libraries that read \<open>Ciao | mondo\<close> in every image.\<close>

definition demo_image :: image where
  "demo_image = \<lparr>tobytes = [0, 255, 0, 255], width = 4, height = 1\<rparr>"

definition demo_ocr :: ocr_env where
  "demo_ocr = \<lparr>preprocess_image = Inr,
               image_to_string = (\<lambda>img language psm. Inr (lit ''Ciao | mondo''))\<rparr>"

definition broken_ocr :: ocr_env where
  "broken_ocr = \<lparr>preprocess_image = (\<lambda>img. Inl OtherError),
                 image_to_string = (\<lambda>img language psm. Inl TesseractNotFoundError)\<rparr>"

definition demo_engine :: OCREngine where
  "demo_engine = \<lparr>preprocess = True, last_text = [], last_image_hash = None, ocr_calls = []\<rparr>"

section \<open>Verification\<close>

subsection \<open>The cache\<close>


lemma keys_setitem_present:
  "k \<in> fst ` set od \<Longrightarrow> map fst (setitem k v od) = map fst od"
  by (induction od) (auto simp: setitem_def)

lemma keys_setitem_absent:
  "k \<notin> fst ` set od \<Longrightarrow> setitem k v od = od @ [(k, v)]"
  by (simp add: setitem_def)

lemma keys_move_to_end:
  "map fst (move_to_end k v od) = filter (\<lambda>x. x \<noteq> k) (map fst od) @ [k]"
  by (induction od) (auto simp: move_to_end_def)

lemma map_filter_other:
  "map (\<lambda>e. if fst e = k then (k, v') else e) (filter (\<lambda>e. fst e \<noteq> k) od) = filter (\<lambda>e. fst e \<noteq> k) od"
  by (induction od) auto

lemma setitem_move_to_end:
  "setitem k v' (move_to_end k v od) = move_to_end k v' od"
  by (simp add: setitem_def move_to_end_def map_filter_other)

lemma map_of_None_iff: "map_of od k = None \<longleftrightarrow> k \<notin> fst ` set od"
  by (simp add: map_of_eq_None_iff)

lemma keys_get_hit:
  "map_of (cache c) k = Some v \<Longrightarrow> cache_keys (snd (get c k)) = filter (\<lambda>x. x \<noteq> k) (cache_keys c) @ [k]"
  by (simp add: get_def cache_keys_def keys_move_to_end)

lemma get_miss: "map_of (cache c) k = None \<Longrightarrow> get c k = (None, c)"
  by (simp add: get_def)

lemma keys_put_present:
  "map_of (cache c) k = Some v0 \<Longrightarrow> cache_keys (put c k v) = filter (\<lambda>x. x \<noteq> k) (cache_keys c) @ [k]"
  by (simp add: put_def cache_keys_def setitem_move_to_end keys_move_to_end)

lemma put_absent:
  "map_of (cache c) k = None \<Longrightarrow>
   cache (put c k v) = (if int (length (cache c)) + 1 > max_size c then drop 1 (cache c @ [(k, v)]) else cache c @ [(k, v)])"
proof -
  assume a: "map_of (cache c) k = None"
  then have "setitem k v (cache c) = cache c @ [(k, v)]"
    by (simp add: keys_setitem_absent map_of_None_iff)
  with a show ?thesis
    by (simp add: put_def Let_def popitem_first_def)
qed

lemma max_size_apply_op [simp]: "max_size (apply_op c op) = max_size c"
  by (cases op) (auto simp: get_def put_def clear_def Let_def split: option.splits)

lemma max_size_run [simp]: "max_size (run c ops) = max_size c"
  by (induction ops arbitrary: c) auto


lemma filter_absent: "k \<notin> set ks \<Longrightarrow> filter (\<lambda>x. x \<noteq> k) ks = ks"
  by (induction ks) auto

lemma length_filter_distinct:
  "distinct ks \<Longrightarrow> k \<in> set ks \<Longrightarrow> Suc (length (filter (\<lambda>x. x \<noteq> k) ks)) = length ks"
  by (induction ks) (auto simp: filter_absent)

lemma length_cache_keys [simp]: "length (cache_keys c) = length (cache c)"
  by (simp add: cache_keys_def)

lemma map_of_Some_key: "map_of (cache c) k = Some v \<Longrightarrow> k \<in> set (cache_keys c)"
  by (auto simp: cache_keys_def dest: map_of_SomeD intro: rev_image_eqI)

lemma map_of_None_key: "map_of (cache c) k = None \<longleftrightarrow> k \<notin> set (cache_keys c)"
  by (simp add: cache_keys_def map_of_eq_None_iff)

lemma cache_keys_put_absent:
  "map_of (cache c) k = None \<Longrightarrow>
   cache_keys (put c k v) =
     (if int (length (cache c)) + 1 > max_size c then drop 1 (cache_keys c @ [k]) else cache_keys c @ [k])"
  by (simp add: cache_keys_def put_absent drop_map [symmetric] del: drop_append)

lemma bounded_refresh:
  assumes "bounded c" "k \<in> set (cache_keys c)" "max_size c' = max_size c"
    "cache_keys c' = filter (\<lambda>x. x \<noteq> k) (cache_keys c) @ [k]"
  shows "bounded c'"
proof -
  have "length (cache_keys c') = length (cache_keys c)"
    using assms length_filter_distinct [of "cache_keys c" k] by (simp add: bounded_def)
  then have "length (cache c') = length (cache c)" by simp
  moreover have "distinct (cache_keys c')"
    using assms by (simp add: bounded_def)
  ultimately show ?thesis using assms by (simp add: bounded_def)
qed

lemma max_size_get [simp]: "max_size (snd (get c k)) = max_size c"
  by (simp add: get_def split: option.splits)

lemma max_size_put [simp]: "max_size (put c k v) = max_size c"
  by (simp add: put_def Let_def split: option.splits)

lemma bounded_get: "bounded c \<Longrightarrow> bounded (snd (get c k))"
proof (cases "map_of (cache c) k")
  case None
  assume "bounded c"
  with None show ?thesis by (simp add: get_miss)
next
  case (Some v)
  assume b: "bounded c"
  show ?thesis
    by (rule bounded_refresh [OF b map_of_Some_key [OF Some]]) (simp_all add: keys_get_hit [OF Some])
qed

lemma bounded_put: 
  assumes "bounded c" shows "bounded (put c k v)"
proof (cases "map_of (cache c) k")
  case None
  then have notin: "k \<notin> set (cache_keys c)" by (simp add: map_of_None_key)
  have d: "distinct (cache_keys c @ [k])" using assms notin by (simp add: bounded_def)
  have "distinct (cache_keys (put c k v))"
    using d by (simp add: cache_keys_put_absent None del: distinct_append drop_append)
  moreover have "int (length (cache_keys (put c k v))) \<le> max_size c"
    using assms by (simp add: cache_keys_put_absent None bounded_def del: drop_append)
  ultimately show ?thesis by (simp add: bounded_def)
next
  case (Some v0)
  show ?thesis
    by (rule bounded_refresh [OF assms map_of_Some_key [OF Some]]) (simp_all add: keys_put_present [OF Some])
qed

lemma bounded_apply_op: "bounded c \<Longrightarrow> bounded (apply_op c op)"
  by (cases op) (simp_all add: bounded_get bounded_put, simp add: bounded_def clear_def cache_keys_def)

lemma bounded_run: "bounded c \<Longrightarrow> bounded (run c ops)"
  by (induction ops arbitrary: c) (simp_all add: bounded_apply_op)

lemma bounded_init: "0 \<le> n \<Longrightarrow> bounded (TranslationCache_init n)"
  by (simp add: bounded_def TranslationCache_init_def cache_keys_def)

text \<open>
  Claim C2. For every capacity \<open>N \<ge> 1\<close> and every finite history of \<open>get\<close>, \<open>put\<close> and
  \<open>clear\<close> operations run from the empty cache of capacity \<open>N\<close>, the cache holds at most
  \<open>N\<close> entries and no key occurs twice. The history is arbitrary, so the statement
  holds after each of its operations (every prefix of a history is a history).
\<close>

theorem cache_bounded_distinct:
  assumes "1 \<le> N"
  shows "int (length (cache (run (TranslationCache_init N) ops))) \<le> N \<and>
         distinct (map fst (cache (run (TranslationCache_init N) ops)))"
proof -
  have "bounded (run (TranslationCache_init N :: ('a, 'b) TranslationCache) ops)"
    using assms by (intro bounded_run bounded_init) simp
  then show ?thesis
    by (simp add: bounded_def cache_keys_def TranslationCache_init_def)
qed


lemma recency_ordered_cong:
  "recency_ordered S t ks \<Longrightarrow> (\<And>x. x \<in> set ks \<Longrightarrow> S' x = S x) \<Longrightarrow> t \<le> t' \<Longrightarrow> recency_ordered S' t' ks"
  unfolding recency_ordered_def
  by (auto elim!: sorted_wrt_mono_rel [rotated] intro: less_le_trans)

lemma recency_ordered_filter:
  "recency_ordered S t ks \<Longrightarrow> recency_ordered S t (filter P ks)"
  unfolding recency_ordered_def by (auto simp: sorted_wrt_filter)

lemma recency_ordered_drop:
  "recency_ordered S t ks \<Longrightarrow> recency_ordered S t (drop n ks)"
  unfolding recency_ordered_def by (auto dest: in_set_dropD)

lemma recency_ordered_snoc:
  assumes "recency_ordered S t ks" "k \<notin> set ks"
  shows "recency_ordered (\<lambda>x. if x = k then Some t else S x) (Suc t) (ks @ [k])"
proof -
  let ?S = "\<lambda>x. if x = k then Some t else S x"
  have 1: "recency_ordered ?S (Suc t) ks"
    using assms by (intro recency_ordered_cong [OF assms(1)]) auto
  have 2: "\<forall>x \<in> set ks. the (?S x) < t"
    using assms unfolding recency_ordered_def by auto
  show ?thesis
    using 1 2 unfolding recency_ordered_def by (auto simp: sorted_wrt_append)
qed

lemma recency_ordered_refresh:
  assumes "recency_ordered S t ks"
  shows "recency_ordered (\<lambda>x. if x = k then Some t else S x) (Suc t) (filter (\<lambda>x. x \<noteq> k) ks @ [k])"
  by (rule recency_ordered_snoc) (simp_all add: recency_ordered_filter assms)

lemma recency_ordered_apply_op:
  assumes "recency_ordered S t (cache_keys c)"
  shows "recency_ordered (\<lambda>k. if touches c op k then Some t else S k) (Suc t) (cache_keys (apply_op c op))"
proof (cases op)
  case (Get k)
  show ?thesis
  proof (cases "map_of (cache c) k")
    case None
    then have "\<And>x. \<not> touches c op x"
      using Get by auto
    then have "(\<lambda>x. if touches c op x then Some t else S x) = S"
      by simp
    then show ?thesis
      using Get None recency_ordered_cong [OF assms, of S "Suc t"] by (simp add: get_miss)
  next
    case (Some v)
    have "(\<lambda>x. if touches c op x then Some t else S x) = (\<lambda>x. if x = k then Some t else S x)"
      using Some Get by auto
    then show ?thesis
      using Get recency_ordered_refresh [OF assms, of k] by (simp add: keys_get_hit [OF Some])
  qed
next
  case (Put k v)
  have S: "(\<lambda>x. if touches c op x then Some t else S x) = (\<lambda>x. if x = k then Some t else S x)"
    using Put by auto
  show ?thesis
  proof (cases "map_of (cache c) k")
    case None
    then have "k \<notin> set (cache_keys c)" by (simp add: map_of_None_key)
    from recency_ordered_snoc [OF assms this]
    show ?thesis
      unfolding S using Put
      by (simp add: cache_keys_put_absent [OF None] recency_ordered_drop del: drop_append)
  next
    case (Some v0)
    show ?thesis
      unfolding S using Put recency_ordered_refresh [OF assms, of k]
      by (simp add: keys_put_present [OF Some])
  qed
next
  case Clear
  then show ?thesis by (simp add: clear_def cache_keys_def recency_ordered_def)
qed

lemma recency_ordered_run:
  "recency_ordered S t (cache_keys c) \<Longrightarrow>
   recency_ordered (last_use c t ops S) (t + length ops) (cache_keys (run c ops))"
proof (induction ops arbitrary: c t S)
  case Nil
  then show ?case by simp
next
  case (Cons op ops)
  from Cons.IH [OF recency_ordered_apply_op [OF Cons.prems, of op]]
  show ?case by simp
qed

lemma eviction_shape:
  assumes "1 \<le> max_size c" "int (length (cache c)) = max_size c" "map_of (cache c) k = None"
  shows "\<exists>victim v0 rest. cache c = (victim, v0) # rest \<and> cache (put c k v) = rest @ [(k, v)]"
proof (cases "cache c")
  case Nil
  with assms show ?thesis by simp
next
  case (Cons e rest)
  then show ?thesis
    using assms by (cases e) (simp add: put_absent)
qed


lemma refresh_shape:
  assumes "map_of (cache c) k = Some v0"
  shows "get c k = (Some v0, c\<lparr>cache := filter (\<lambda>e. fst e \<noteq> k) (cache c) @ [(k, v0)]\<rparr>) \<and>
         put c k v = c\<lparr>cache := filter (\<lambda>e. fst e \<noteq> k) (cache c) @ [(k, v)]\<rparr>"
  using assms by (simp add: get_def put_def setitem_move_to_end) (simp add: move_to_end_def)

text \<open>
  Claim C1. The cache evicts the least recently used entry. For every history run from the
  empty cache of capacity \<open>N \<ge> 1\<close>: the entries are stored in the order of their last
  use (last \<open>get\<close> hit or \<open>put\<close>), oldest first; a \<open>put\<close> of an absent key into the full cache
  removes exactly the first entry, whose last use is older than that of every other
  entry, and appends the new one; a \<open>get\<close> hit and a \<open>put\<close> of a present key move that
  key to the newest position. On capacity 2, \<open>put a, put b, get a, put c\<close> leaves
  \<open>a, c\<close>, and \<open>put a, put b, put c\<close> leaves \<open>b, c\<close>.
\<close>

theorem lru_eviction:
  assumes "1 \<le> N"
  shows "(let c = run (TranslationCache_init N) ops;
              U = last_use (TranslationCache_init N) 0 ops (\<lambda>x. None)
          in recency_ordered U (length ops) (cache_keys c) \<and>
             (map_of (cache c) k = None \<and> int (length (cache c)) = N \<longrightarrow>
                (\<exists>victim v0 rest. cache c = (victim, v0) # rest \<and>
                   cache (put c k v) = rest @ [(k, v)] \<and>
                   (\<forall>k' \<in> fst ` set rest. \<exists>t t'. U victim = Some t \<and> U k' = Some t' \<and> t < t'))) \<and>
             (\<forall>v0. map_of (cache c) k = Some v0 \<longrightarrow>
                get c k = (Some v0, c\<lparr>cache := filter (\<lambda>e. fst e \<noteq> k) (cache c) @ [(k, v0)]\<rparr>) \<and>
                put c k v = c\<lparr>cache := filter (\<lambda>e. fst e \<noteq> k) (cache c) @ [(k, v)]\<rparr>)) \<and>
         cache_keys (run (TranslationCache_init 2) [Put ''a'' x, Put ''b'' y, Get ''a'', Put ''c'' z]) = [''a'', ''c''] \<and>
         cache_keys (run (TranslationCache_init 2) [Put ''a'' x, Put ''b'' y, Put ''c'' z]) = [''b'', ''c'']"
proof -
  define c :: "('a, 'b) TranslationCache" where "c = run (TranslationCache_init N) ops"
  define U where "U = last_use (TranslationCache_init N :: ('a, 'b) TranslationCache) 0 ops (\<lambda>x. None)"
  have m: "max_size c = N" by (simp add: c_def TranslationCache_init_def)
  have "recency_ordered (\<lambda>x. None) 0 (cache_keys (TranslationCache_init N :: ('a, 'b) TranslationCache))"
    by (simp add: recency_ordered_def cache_keys_def TranslationCache_init_def)
  from recency_ordered_run [OF this, of ops]
  have ord: "recency_ordered U (length ops) (cache_keys c)"
    by (simp add: c_def U_def)
  have evict: "\<exists>victim v0 rest. cache c = (victim, v0) # rest \<and>
                   cache (put c k v) = rest @ [(k, v)] \<and>
                   (\<forall>k' \<in> fst ` set rest. \<exists>t t'. U victim = Some t \<and> U k' = Some t' \<and> t < t')"
    if none: "map_of (cache c) k = None" and full: "int (length (cache c)) = N"
  proof -
    from eviction_shape [of c k v] assms m none full
    obtain victim v0 rest where sh: "cache c = (victim, v0) # rest" "cache (put c k v) = rest @ [(k, v)]"
      by auto
    have "\<exists>t t'. U victim = Some t \<and> U k' = Some t' \<and> t < t'" if "k' \<in> fst ` set rest" for k'
    proof -
      from ord sh(1) that have "the (U victim) < the (U k')"
        by (auto simp: recency_ordered_def cache_keys_def)
      moreover from ord sh(1) that obtain t t' where "U victim = Some t" "U k' = Some t'"
        unfolding recency_ordered_def cache_keys_def by fastforce
      ultimately show ?thesis by simp
    qed
    with sh show ?thesis by blast
  qed
  have ex1: "cache_keys (run (TranslationCache_init 2) [Put ''a'' x, Put ''b'' y, Get ''a'', Put ''c'' z]) = [''a'', ''c'']"
    by (simp add: TranslationCache_init_def put_def get_def setitem_def move_to_end_def
          popitem_first_def cache_keys_def Let_def)
  have ex2: "cache_keys (run (TranslationCache_init 2) [Put ''a'' x, Put ''b'' y, Put ''c'' z]) = [''b'', ''c'']"
    by (simp add: TranslationCache_init_def put_def get_def setitem_def move_to_end_def
          popitem_first_def cache_keys_def Let_def)
  have refresh: "\<forall>v0. map_of (cache c) k = Some v0 \<longrightarrow>
                get c k = (Some v0, c\<lparr>cache := filter (\<lambda>e. fst e \<noteq> k) (cache c) @ [(k, v0)]\<rparr>) \<and>
                put c k v = c\<lparr>cache := filter (\<lambda>e. fst e \<noteq> k) (cache c) @ [(k, v)]\<rparr>"
    using refresh_shape [of c k] by blast
  from ord evict refresh ex1 ex2 show ?thesis
    unfolding Let_def c_def [symmetric] U_def [symmetric] by blast
qed

theorem lru_eviction_witness:
  "(1::int) \<le> 2 \<and>
   (let c = run (TranslationCache_init 2) [Put ''a'' (1::nat), Put ''b'' 2, Get ''a''];
        U = last_use (TranslationCache_init 2) 0 [Put ''a'' (1::nat), Put ''b'' 2, Get ''a''] (\<lambda>x. None)
    in cache c = [(''b'', 2), (''a'', 1)] \<and> U ''b'' = Some 1 \<and> U ''a'' = Some 2 \<and>
       cache (put c ''c'' 3) = [(''a'', 1), (''c'', 3)] \<and>
       cache (snd (get c ''b'')) = [(''a'', 1), (''b'', 2)] \<and>
       cache (put c ''b'' 7) = [(''a'', 1), (''b'', 7)])"
  using lru_eviction [of 2 "[Put ''a'' (1::nat), Put ''b'' 2, Get ''a'']" "''c''" 3]
        lru_eviction [of 2 "[Put ''a'' (1::nat), Put ''b'' 2, Get ''a'']" "''b''" 7]
  by (simp add: TranslationCache_init_def put_def get_def setitem_def move_to_end_def
          popitem_first_def cache_keys_def Let_def)

theorem cache_bounded_distinct_witness:
  "(1::int) \<le> 2 \<and>
   int (length (cache (run (TranslationCache_init 2)
      [Put ''a'' (1::nat), Put ''b'' 2, Get ''a'', Put ''c'' 3, Put ''a'' 4, Clear, Put ''d'' 5]))) \<le> 2 \<and>
   distinct (map fst (cache (run (TranslationCache_init 2)
      [Put ''a'' (1::nat), Put ''b'' 2, Get ''a'', Put ''c'' 3, Put ''a'' 4, Clear, Put ''d'' 5])))"
  using cache_bounded_distinct [of 2 "[Put ''a'' (1::nat), Put ''b'' 2, Get ''a'', Put ''c'' 3, Put ''a'' 4, Clear, Put ''d'' 5]"]
  by simp

subsection \<open>Edit distance\<close>

lemma edit1_Cons: "edit1 a b \<Longrightarrow> edit1 (x # a) (x # b)"
proof (induction rule: edit1.induct)
  case (insertion xs ys c)
  show ?case using edit1.insertion [of "x # xs" ys c] by simp
next
  case (deletion xs c ys)
  show ?case using edit1.deletion [of "x # xs" c ys] by simp
next
  case (substitution xs c ys d)
  show ?case using edit1.substitution [of "x # xs" c ys d] by simp
qed

lemma edit1_ins_head: "edit1 ys (c # ys)"
  using edit1.insertion [of "[]" ys c] by simp

lemma edit1_del_head: "edit1 (c # ys) ys"
  using edit1.deletion [of "[]" c ys] by simp

lemma edit1_sub_head: "edit1 (c # ys) (d # ys)"
  using edit1.substitution [of "[]" c ys d] by simp

lemma edits_Cons: "(edit1 ^^ n) a b \<Longrightarrow> (edit1 ^^ n) (x # a) (x # b)"
proof (induction n arbitrary: b)
  case 0
  then show ?case by simp
next
  case (Suc n)
  then obtain m where "(edit1 ^^ n) a m" "edit1 m b" by auto
  then have "(edit1 ^^ n) (x # a) (x # m)" "edit1 (x # m) (x # b)"
    using Suc.IH edit1_Cons by auto
  then show ?case by (rule relpowp_Suc_I)
qed

lemma edits_from_Nil: "(edit1 ^^ length ys) [] ys"
proof (induction ys)
  case Nil
  show ?case by simp
next
  case (Cons y ys)
  then show ?case using edit1_ins_head [of ys y] by auto
qed

lemma edits_to_Nil: "(edit1 ^^ length xs) xs []"
proof (induction xs)
  case Nil
  show ?case by simp
next
  case (Cons x xs)
  show ?case using relpowp_Suc_I2 [OF edit1_del_head Cons.IH] by simp
qed

lemma ed_Nil2 [simp]: "ed xs [] = length xs"
  by (cases xs) auto

lemma ed_reaches: "(edit1 ^^ ed a b) a b"
proof (induction a b rule: ed.induct)
  case (1 ys)
  show ?case by (simp add: edits_from_Nil)
next
  case (2 x xs)
  show ?case using edits_to_Nil [of "x # xs"] by simp
next
  case (3 x xs y ys)
  let ?A = "ed xs (y # ys) + 1" and ?B = "ed (x # xs) ys + 1"
    and ?C = "ed xs ys + (if x \<noteq> y then 1 else 0)"
  have A: "(edit1 ^^ ?A) (x # xs) (y # ys)"
    using relpowp_Suc_I2 [OF edit1_del_head "3.IH"(1)] by simp
  have B: "(edit1 ^^ ?B) (x # xs) (y # ys)"
    using relpowp_Suc_I [OF "3.IH"(2) edit1_ins_head] by simp
  have C: "(edit1 ^^ ?C) (x # xs) (y # ys)"
  proof (cases "x = y")
    case True
    then show ?thesis using edits_Cons [OF "3.IH"(3)] by simp
  next
    case False
    then show ?thesis
      using relpowp_Suc_I [OF edits_Cons [OF "3.IH"(3), of x] edit1_sub_head [of x ys y]] by simp
  qed
  have "ed (x # xs) (y # ys) = ?A \<or> ed (x # xs) (y # ys) = ?B \<or> ed (x # xs) (y # ys) = ?C"
    by (simp add: min_def)
  with A B C show ?case by metis
qed

lemma ed_ins: "ed a (x # b) \<le> ed a b + 1"
  by (cases a) auto

lemma ed_del1: "ed (p # a) b \<le> ed a b + 1"
  by (cases b) auto

lemma ed_del: "ed a b \<le> ed a (x # b) + 1"
proof (induction a)
  case Nil
  show ?case by simp
next
  case (Cons p a)
  have "ed (p # a) b \<le> ed a b + 1" by (rule ed_del1)
  with Cons show ?case by (simp add: min_def)
qed

lemma ed_sub: "ed a (y # b) \<le> ed a (x # b) + 1"
proof (induction a)
  case Nil
  show ?case by simp
next
  case (Cons p a)
  then show ?case by (simp add: min_def)
qed

lemma ed_cong:
  assumes "\<And>a. ed a c \<le> ed a b + 1"
  shows "ed a (x # c) \<le> ed a (x # b) + 1"
proof (induction a)
  case Nil
  show ?case using assms [of "[]"] by simp
next
  case (Cons p a)
  have "min a1 (min a2 a3) \<le> min b1 (min b2 b3) + 1"
    if "a1 \<le> b1 + 1" "a2 \<le> b2 + 1" "a3 \<le> b3 + 1" for a1 a2 a3 b1 b2 b3 :: nat
    using that by linarith
  from this [of "ed a (x # c) + 1" "ed a (x # b) + 1" "ed (p # a) c + 1" "ed (p # a) b + 1"
      "ed a c + (if p \<noteq> x then 1 else 0)" "ed a b + (if p \<noteq> x then 1 else 0)"]
    assms [of "p # a"] assms [of a] Cons
  show ?case by simp
qed

lemma ed_insertion: "ed a (xs @ c # ys) \<le> ed a (xs @ ys) + 1"
proof (induction xs arbitrary: a)
  case Nil
  show ?case using ed_ins [of a c ys] by simp
next
  case (Cons x xs)
  show ?case using ed_cong [of "xs @ c # ys" "xs @ ys" a x] Cons by simp
qed

lemma ed_deletion: "ed a (xs @ ys) \<le> ed a (xs @ c # ys) + 1"
proof (induction xs arbitrary: a)
  case Nil
  show ?case using ed_del [of a ys c] by simp
next
  case (Cons x xs)
  show ?case using ed_cong [of "xs @ ys" "xs @ c # ys" a x] Cons by simp
qed

lemma ed_substitution: "ed a (xs @ d # ys) \<le> ed a (xs @ c # ys) + 1"
proof (induction xs arbitrary: a)
  case Nil
  show ?case using ed_sub [of a d ys c] by simp
next
  case (Cons x xs)
  show ?case using ed_cong [of "xs @ d # ys" "xs @ c # ys" a x] Cons by simp
qed

lemma ed_edit1: "edit1 b c \<Longrightarrow> ed a c \<le> ed a b + 1"
proof (induction rule: edit1.induct)
  case (insertion xs ys c)
  show ?case by (rule ed_insertion)
next
  case (deletion xs c ys)
  show ?case by (rule ed_deletion)
next
  case (substitution xs c ys d)
  show ?case by (rule ed_substitution)
qed

lemma ed_same [simp]: "ed a a = 0"
  by (induction a) auto

lemma ed_lower: "(edit1 ^^ n) a b \<Longrightarrow> ed a b \<le> n"
proof (induction n arbitrary: b)
  case 0
  then show ?case by simp
next
  case (Suc n)
  then obtain m where "(edit1 ^^ n) a m" "edit1 m b" by auto
  then show ?case using Suc.IH [of m] ed_edit1 [of m b a] by simp
qed

lemma edit1_sym: "edit1 a b \<Longrightarrow> edit1 b a"
  by (induction rule: edit1.induct) (auto intro: edit1.intros)

lemma edit1_rev: "edit1 a b \<Longrightarrow> edit1 (rev a) (rev b)"
proof (induction rule: edit1.induct)
  case (insertion xs ys c)
  show ?case using edit1.insertion [of "rev ys" "rev xs" c] by simp
next
  case (deletion xs c ys)
  show ?case using edit1.deletion [of "rev ys" c "rev xs"] by simp
next
  case (substitution xs c ys d)
  show ?case using edit1.substitution [of "rev ys" c "rev xs" d] by simp
qed

lemma edits_sym: "(edit1 ^^ n) a b \<Longrightarrow> (edit1 ^^ n) b a"
proof (induction n arbitrary: b)
  case 0
  then show ?case by simp
next
  case (Suc n)
  then obtain m where "(edit1 ^^ n) a m" "edit1 m b" by auto
  then show ?case using relpowp_Suc_I2 [of edit1 b m n a] Suc.IH edit1_sym by blast
qed

lemma edits_rev: "(edit1 ^^ n) a b \<Longrightarrow> (edit1 ^^ n) (rev a) (rev b)"
proof (induction n arbitrary: b)
  case 0
  then show ?case by simp
next
  case (Suc n)
  then obtain m where "(edit1 ^^ n) a m" "edit1 m b" by auto
  then show ?case using Suc.IH edit1_rev by auto
qed

lemma ed_sym: "ed a b = ed b a"
  by (metis ed_lower ed_reaches edits_sym antisym)

lemma ed_rev: "ed (rev a) (rev b) = ed a b"
proof (rule antisym)
  show "ed (rev a) (rev b) \<le> ed a b"
    by (rule ed_lower [OF edits_rev [OF ed_reaches]])
  show "ed a b \<le> ed (rev a) (rev b)"
    using ed_lower [OF edits_rev [OF ed_reaches [of "rev a" "rev b"]]] by simp
qed


lemma getitem_map_upt: "j < n \<Longrightarrow> getitem (map f [0..<n]) j = Inr (f j)"
  by (simp add: getitem_def)

lemma row_of_Nil: "row_of [] s2 = [0..<length s2 + 1]"
  unfolding row_of_def by (rule map_idI) auto

lemma inner_loop_row:
  "inner_loop c1 (row_of p (done @ rest)) (length done) rest
     (map (\<lambda>j. ed (c1 # p) (rev (take j (done @ rest)))) [0..<length done + 1])
   = Inr (row_of (c1 # p) (done @ rest))"
proof (induction rest arbitrary: "done")
  case Nil
  show ?case by (simp add: row_of_def)
next
  case (Cons c2 rest)
  let ?s2 = "done @ c2 # rest" and ?j = "length done"
  let ?cur = "map (\<lambda>j. ed (c1 # p) (rev (take j ?s2))) [0..<?j + 1]"
  have p1: "getitem (row_of p ?s2) (?j + 1) = Inr (ed p (c2 # rev done))"
    unfolding row_of_def by (subst getitem_map_upt) simp_all
  have p0: "getitem (row_of p ?s2) ?j = Inr (ed p (rev done))"
    unfolding row_of_def by (subst getitem_map_upt) simp_all
  have cj: "getitem ?cur ?j = Inr (ed (c1 # p) (rev done))"
    by (subst getitem_map_upt) simp_all
  have new: "?cur @ [ed (c1 # p) (c2 # rev done)]
             = map (\<lambda>j. ed (c1 # p) (rev (take j ?s2))) [0..<length (done @ [c2]) + 1]"
    by simp
  have "inner_loop c1 (row_of p ?s2) ?j (c2 # rest) ?cur
        = inner_loop c1 (row_of p ?s2) (?j + 1) rest (?cur @ [ed (c1 # p) (c2 # rev done)])"
    by (simp only: inner_loop.simps p1 p0 cj sum.case Let_def ed.simps)
  also have "\<dots> = Inr (row_of (c1 # p) ?s2)"
    using Cons.IH [of "done @ [c2]"] unfolding new by simp
  finally show ?case .
qed

lemma outer_loop_row:
  "length p = i \<Longrightarrow> outer_loop i s1 s2 (row_of p s2) = Inr (row_of (rev s1 @ p) s2)"
proof (induction s1 arbitrary: i p)
  case Nil
  show ?case by simp
next
  case (Cons c1 s1)
  have "inner_loop c1 (row_of p s2) 0 s2 [i + 1] = Inr (row_of (c1 # p) s2)"
    using inner_loop_row [of c1 p "[]" s2] Cons.prems by simp
  then show ?case using Cons.IH [of "c1 # p" "i + 1"] Cons.prems by simp
qed

lemma last_row_of: "getitem_last (row_of p s2) = Inr (ed p (rev s2))"
  by (simp add: getitem_last_def row_of_def last_map)

lemma levenshtein_distance_ge:
  assumes "\<not> length s1 < length s2"
  shows "levenshtein_distance s1 s2 = Inr (ed s1 s2)"
proof (cases "length s2 = 0")
  case True
  with assms show ?thesis by (simp add: levenshtein_distance.simps)
next
  case False
  have "outer_loop 0 s1 s2 [0..<length s2 + 1] = Inr (row_of (rev s1) s2)"
    using outer_loop_row [of "[]" 0 s1 s2] by (simp add: row_of_Nil)
  with assms False show ?thesis
    by (simp add: levenshtein_distance.simps [of s1 s2] last_row_of ed_rev)
qed

lemma levenshtein_distance_ed: "levenshtein_distance s1 s2 = Inr (ed s1 s2)"
proof (cases "length s1 < length s2")
  case True
  then have "levenshtein_distance s1 s2 = levenshtein_distance s2 s1"
    by (simp add: levenshtein_distance.simps [of s1 s2])
  also have "\<dots> = Inr (ed s2 s1)" using True by (intro levenshtein_distance_ge) simp
  finally show ?thesis by (simp add: ed_sym)
next
  case False
  then show ?thesis by (rule levenshtein_distance_ge)
qed

lemma ed_le_max: "ed a b \<le> max (length a) (length b)"
  by (induction a b rule: ed.induct) auto

text \<open>
  Claim C5. \<open>levenshtein_distance\<close> is total: for every pair of strings it returns a
  number (no exception), and that number is the minimum number of single-character
  insertions, deletions and substitutions that transform \<open>a\<close> into \<open>b\<close>: that many edits
  suffice, and no shorter sequence of edits exists. In particular the distance from \<open>a\<close>
  to itself is 0 and the distance from \<open>a\<close> to the empty string is the length of \<open>a\<close>.
\<close>

theorem levenshtein_distance_minimal:
  "(\<exists>d. levenshtein_distance a b = Inr d \<and> (edit1 ^^ d) a b \<and> (\<forall>n. (edit1 ^^ n) a b \<longrightarrow> d \<le> n)) \<and>
   levenshtein_distance a a = Inr 0 \<and>
   levenshtein_distance a [] = Inr (length a)"
  using ed_reaches [of a b] ed_lower [of _ a b] by (auto simp: levenshtein_distance_ed)

theorem levenshtein_distance_minimal_witness:
  "levenshtein_distance ''flaw'' ''lawn'' = Inr 2 \<and>
   (edit1 ^^ 2) ''flaw'' ''lawn'' \<and> \<not> (edit1 ^^ 1) ''flaw'' ''lawn''"
proof -
  have v: "levenshtein_distance ''flaw'' ''lawn'' = Inr 2"
    by (simp add: levenshtein_distance.simps getitem_def getitem_last_def)
  from levenshtein_distance_minimal [of "''flaw''" "''lawn''"] v
  have "(edit1 ^^ 2) ''flaw'' ''lawn''" and "\<forall>n. (edit1 ^^ n) ''flaw'' ''lawn'' \<longrightarrow> 2 \<le> n"
    by auto
  then show ?thesis using v by (metis one_less_numeral_iff not_less semiring_norm(76))
qed

subsection \<open>Similarity\<close>

lemma levenshtein_distance_le_max:
  "\<exists>d. levenshtein_distance a b = Inr d \<and> d \<le> max (length a) (length b)"
  by (simp add: levenshtein_distance_ed ed_le_max)

lemma ratio_in_unit_interval:
  "d \<le> m \<Longrightarrow> 0 < m \<Longrightarrow> 0 \<le> 1 - real d / real m \<and> 1 - real d / real m \<le> 1"
  by (simp add: divide_le_eq)

lemma similarity_value:
  "calculate_text_similarity_levenshtein U text1 text2 =
     (if text1 = [] \<or> text2 = [] then Inr 0
      else if lower U (strip U text1) = lower U (strip U text2) then Inr 1
      else Inr (1 - real (ed (lower U (strip U text1)) (lower U (strip U text2))) /
                    real (max (length (lower U (strip U text1))) (length (lower U (strip U text2))))))"
proof -
  have "max (length t1) (length t2) \<noteq> 0" if "t1 \<noteq> t2" for t1 t2 :: str
    using that by (cases t1; cases t2) auto
  then show ?thesis
    by (simp add: calculate_text_similarity_levenshtein_def Let_def levenshtein_distance_ed)
qed

text \<open>
  Claim C7. For every pair of input strings the similarity is a number between 0 and 1:
  no exception is raised, and on the path that computes
  \<open>1 - distance / max_len\<close> the value stays in the interval, because the edit distance
  never exceeds the length of the longer string.
\<close>

theorem similarity_in_unit_interval:
  "(\<exists>r. calculate_text_similarity_levenshtein U text1 text2 = Inr r \<and> 0 \<le> r \<and> r \<le> 1) \<and>
   (\<exists>d. levenshtein_distance a b = Inr d \<and> d \<le> max (length a) (length b))"
proof -
  let ?t1 = "lower U (strip U text1)" and ?t2 = "lower U (strip U text2)"
  have "0 \<le> 1 - real (ed ?t1 ?t2) / real (max (length ?t1) (length ?t2)) \<and>
        1 - real (ed ?t1 ?t2) / real (max (length ?t1) (length ?t2)) \<le> 1" if "?t1 \<noteq> ?t2"
  proof (rule ratio_in_unit_interval [OF ed_le_max])
    show "0 < max (length ?t1) (length ?t2)"
      using that by (cases ?t1; cases ?t2) auto
  qed
  then have "\<exists>r. calculate_text_similarity_levenshtein U text1 text2 = Inr r \<and> 0 \<le> r \<and> r \<le> 1"
    unfolding similarity_value by auto
  then show ?thesis using levenshtein_distance_le_max [of a b] by blast
qed

lemma similarity_one_side_blank:
  assumes "text1 \<noteq> []" "text2 \<noteq> []"
    and "lower U (strip U text1) = []" "lower U (strip U text2) \<noteq> []"
  shows "calculate_text_similarity_levenshtein U text1 text2 = Inr 0"
  using assms by (simp add: similarity_value)

text \<open>
  Claim C6 says that the similarity is 0 whenever an input is empty after normalization,
  also when both are. The function tests the raw inputs for emptiness, and compares the
  normalized strings for equality before it looks at their lengths: two inputs that
  consist of one blank each normalize to the empty string and get similarity 1.
  (When exactly one input is blank after normalization the result is 0, see
  \<open>similarity_one_side_blank\<close>.)
\<close>

theorem similarity_blank_inputs:
  "calculate_text_similarity_levenshtein ascii (lit '' '') (lit '' '') = Inr 1"
  by (simp add: calculate_text_similarity_levenshtein_def lit_def ascii_def strip_def ascii_isspace_def)

subsection \<open>The translator\<close>

lemmas ascii_simps = lit_def ascii_def strip_def ascii_isspace_def ascii_lower_def
lemmas cache_simps = TranslationCache_init_def put_def get_def setitem_def move_to_end_def
  popitem_first_def Let_def
lemmas translator_simps = translate_def perform_translation_def translation_error_def
  Translator_init_def demo_provider_def failing_provider_def demo_translator_def
  calculate_text_similarity_levenshtein_def
lemmas lev_simps = levenshtein_distance.simps getitem_def getitem_last_def

lemma demo_translator_reachable:
  "translate ascii demo_provider (Translator_init demo_provider (lit ''it'') (lit ''en'') 100 t)
     (lit ''Ciao'') force = Inr (lit ''hello'', demo_translator t)"
  by (simp add: translator_simps ascii_simps cache_simps)

lemma similarity_total:
  "\<exists>s. calculate_text_similarity_levenshtein U a b = Inr s"
  by (simp add: similarity_value)

lemma get_tr_cache_miss:
  "map_of (cache c) k = None \<Longrightarrow> get c k = (None, c)"
  by (simp add: get_def)

lemma translate_nonblank:
  assumes "strip U text \<noteq> []"
  shows "translate U P st text force =
     Inr (if reuses_last U st (strip U text) force then (last_translation st, st)
          else (case map_of (cache (tr_cache st)) (strip U text) of
                  Some v \<Rightarrow> (v, st\<lparr>tr_cache := snd (get (tr_cache st) (strip U text)),
                                  last_source_text := strip U text, last_translation := v\<rparr>)
                | None \<Rightarrow> perform_translation P st (strip U text)))"
proof -
  have ne: "text \<noteq> []" using assms by (auto simp: strip_def)
  obtain s where s: "calculate_text_similarity_levenshtein U (strip U text) (last_source_text st) = Inr s"
    using similarity_total by blast
  show ?thesis
  proof (cases "map_of (cache (tr_cache st)) (strip U text)")
    case None
    then show ?thesis using assms ne s
      by (simp add: translate_def reuses_last_def Let_def get_tr_cache_miss)
  next
    case (Some v)
    then show ?thesis using assms ne s
      by (simp add: translate_def reuses_last_def Let_def get_def)
  qed
qed

text \<open>
  Claim C3 as stated: whenever \<open>force\<close> is false, \<open>last_source_text\<close> is not empty and the
  similarity of the stripped input to \<open>last_source_text\<close> reaches the threshold,
  \<open>translate\<close> returns \<open>last_translation\<close>. It fails for a blank input under a threshold
  of 0: the similarity of the empty string to anything is 0, which reaches the threshold,
  but the emptiness test at the start of \<open>translate\<close> answers first, with the empty string.
\<close>

theorem short_circuit_counterexample:
  "last_source_text (demo_translator 0) \<noteq> [] \<and>
   calculate_text_similarity_levenshtein ascii (strip ascii (lit '' '')) (last_source_text (demo_translator 0)) = Inr 0 \<and>
   (0::real) \<ge> similarity_threshold (demo_translator 0) \<and>
   translate ascii demo_provider (demo_translator 0) (lit '' '') False = Inr ([], demo_translator 0) \<and>
   last_translation (demo_translator 0) \<noteq> []"
  by (simp add: translator_simps ascii_simps)

text \<open>
  Claim C3, amended: for every input that is not blank, if \<open>force\<close> is false,
  \<open>last_source_text\<close> is not empty and the similarity of the stripped input to
  \<open>last_source_text\<close> is at least the threshold, then \<open>translate\<close> returns \<open>last_translation\<close>
  and leaves the whole translator as it was: no call of the provider is recorded and the
  cache is untouched. Neither the result nor the final state depends on the provider or
  on what the cache holds, so the cache is not read.
\<close>

theorem short_circuit_frame:
  assumes "strip U text \<noteq> []" and "last_source_text st \<noteq> []"
    and "calculate_text_similarity_levenshtein U (strip U text) (last_source_text st) = Inr s"
    and "similarity_threshold st \<le> s"
  shows "translate U P st text False = Inr (last_translation st, st) \<and>
         translate U P' (st\<lparr>tr_cache := c\<rparr>) text False = Inr (last_translation st, st\<lparr>tr_cache := c\<rparr>)"
  using assms by (simp add: translate_nonblank reuses_last_def)

theorem short_circuit_frame_witness:
  "strip ascii (lit '' Ciao! '') = lit ''Ciao!'' \<and>
   calculate_text_similarity_levenshtein ascii (lit ''Ciao!'') (lit ''Ciao'') = Inr (4 / 5) \<and>
   translate ascii failing_provider (demo_translator (4 / 5)) (lit '' Ciao! '') False
     = Inr (lit ''hello'', demo_translator (4 / 5))"
proof -
  have 1: "strip ascii (lit '' Ciao! '') = lit ''Ciao!''"
    by (simp add: ascii_simps)
  have 2: "calculate_text_similarity_levenshtein ascii (lit ''Ciao!'') (lit ''Ciao'') = Inr (4 / 5)"
    by (simp add: calculate_text_similarity_levenshtein_def ascii_simps lev_simps)
  have 3: "last_source_text (demo_translator (4 / 5)) = lit ''Ciao''"
    "last_translation (demo_translator (4 / 5)) = lit ''hello''"
    "similarity_threshold (demo_translator (4 / 5)) = 4 / 5"
    by (simp_all add: demo_translator_def)
  have 4: "lit ''Ciao!'' \<noteq> []" "lit ''Ciao'' \<noteq> []" by (simp_all add: lit_def)
  from short_circuit_frame [of ascii "lit '' Ciao! ''" "demo_translator (4 / 5)" "4 / 5" failing_provider]
  show ?thesis using 1 2 3 4 by simp
qed


lemma perform_translation_fails:
  assumes "provider_fails P st text"
  shows "\<exists>st'. perform_translation P st text =
           (if last_translation st \<noteq> [] then last_translation st @ lit '' [error]'' else text, st') \<and>
         last_source_text st' = last_source_text st \<and> last_translation st' = last_translation st \<and>
         tr_cache st' = tr_cache st"
proof (cases "\<not> translator st \<and> \<not> construct P")
  case True
  then show ?thesis
    by (simp add: perform_translation_def translation_error_def)
next
  case False
  then have "respond P text = None" using assms unfolding provider_fails_def by blast
  with False show ?thesis
    by (simp add: perform_translation_def translation_error_def Let_def)
qed

lemma translate_total: "\<exists>r st'. translate U P st text force = Inr (r, st')"
proof (cases "strip U text = []")
  case True
  then show ?thesis by (simp add: translate_def)
next
  case False
  have ex: "\<exists>r st'. x = (r, st')" for x :: "str \<times> Translator"
    by (cases x) blast
  show ?thesis unfolding translate_nonblank [OF False] sum.inject by (rule ex)
qed

text \<open>
  Claim C4. \<open>translate\<close> never raises: it returns a string for every state, provider and
  input. When an input that is not blank reaches the provider (it is answered neither by
  the similarity shortcut nor by the cache) and the provider fails, the result is
  \<open>last_translation\<close> followed by \<open>[error]\<close> if \<open>last_translation\<close> is not empty, and the
  stripped input otherwise; \<open>last_source_text\<close>, \<open>last_translation\<close> and the cache are
  unchanged.
\<close>

theorem provider_failure_fallback:
  assumes "strip U text \<noteq> []"
    and "\<not> reuses_last U st (strip U text) force"
    and "\<not> cached st (strip U text)"
    and "provider_fails P st (strip U text)"
  shows "(\<exists>st'. translate U P st text force =
            Inr (if last_translation st \<noteq> [] then last_translation st @ lit '' [error]''
                 else strip U text, st') \<and>
          last_source_text st' = last_source_text st \<and>
          last_translation st' = last_translation st \<and>
          tr_cache st' = tr_cache st) \<and>
         (\<exists>r st'. translate U P0 st0 text0 force0 = Inr (r, st'))"
proof -
  have "map_of (cache (tr_cache st)) (strip U text) = None"
    using assms(3) by (simp add: cached_def)
  then have "translate U P st text force = Inr (perform_translation P st (strip U text))"
    using assms(1,2) by (simp add: translate_nonblank)
  then show ?thesis
    using perform_translation_fails [OF assms(4)] translate_total [of U P0 st0 text0 force0]
    by auto
qed


theorem provider_failure_fallback_witness:
  "translate ascii failing_provider (demo_translator (17 / 20)) (lit ''Buonasera'') True
     = Inr (lit ''hello [error]'',
            (demo_translator (17 / 20))\<lparr>provider_calls := [lit ''Ciao'', lit ''Buonasera'']\<rparr>) \<and>
   translate ascii failing_provider
     (Translator_init failing_provider (lit ''it'') (lit ''en'') 100 (17 / 20)) (lit '' Ciao'') False
     = Inr (lit ''Ciao'',
            (Translator_init failing_provider (lit ''it'') (lit ''en'') 100 (17 / 20))
              \<lparr>provider_calls := [lit ''Ciao'']\<rparr>)"
proof -
  let ?st = "demo_translator (17 / 20)"
  let ?init = "Translator_init failing_provider (lit ''it'') (lit ''en'') 100 (17 / 20)"
  have a: "strip ascii (lit ''Buonasera'') \<noteq> []" "\<not> reuses_last ascii ?st (strip ascii (lit ''Buonasera'')) True"
    "\<not> cached ?st (strip ascii (lit ''Buonasera''))"
    "provider_fails failing_provider ?st (strip ascii (lit ''Buonasera''))"
    by (simp_all add: ascii_simps reuses_last_def cached_def provider_fails_def
        failing_provider_def demo_translator_def)
  have b: "strip ascii (lit '' Ciao'') \<noteq> []" "\<not> reuses_last ascii ?init (strip ascii (lit '' Ciao'')) False"
    "\<not> cached ?init (strip ascii (lit '' Ciao''))"
    "provider_fails failing_provider ?init (strip ascii (lit '' Ciao''))"
    by (simp_all add: ascii_simps reuses_last_def cached_def provider_fails_def
        failing_provider_def Translator_init_def TranslationCache_init_def)
  have c: "last_translation ?st = lit ''hello''" "last_translation ?init = []"
    "strip ascii (lit ''Buonasera'') = lit ''Buonasera''" "strip ascii (lit '' Ciao'') = lit ''Ciao''"
    "lit ''hello'' @ lit '' [error]'' = lit ''hello [error]''" "lit ''hello'' \<noteq> []"
    by (simp_all add: demo_translator_def Translator_init_def ascii_simps)
  have d: "translate ascii failing_provider ?st (lit ''Buonasera'') True
     = Inr (lit ''hello [error]'', ?st\<lparr>provider_calls := [lit ''Ciao'', lit ''Buonasera'']\<rparr>)"
    by (simp add: translator_simps ascii_simps cache_simps)
  have e: "translate ascii failing_provider ?init (lit '' Ciao'') False
     = Inr (lit ''Ciao'', ?init\<lparr>provider_calls := [lit ''Ciao'']\<rparr>)"
    by (simp add: translator_simps ascii_simps cache_simps)
  from provider_failure_fallback [of ascii "lit ''Buonasera''" ?st True failing_provider
         demo_provider ?st "[]" True, OF a]
       provider_failure_fallback [of ascii "lit '' Ciao''" ?init False failing_provider
         demo_provider ?st "[]" True, OF b]
  show ?thesis
    unfolding c d e by simp
qed

lemma map_of_refreshed: "map_of (filter (\<lambda>e. fst e \<noteq> k) od @ [(k, v)]) k = Some v"
proof -
  have "map_of (filter (\<lambda>e. fst e \<noteq> k) od) k = None"
    by (auto simp: map_of_eq_None_iff)
  then show ?thesis by (simp add: map_add_def)
qed

lemma map_of_get_hit:
  "map_of (cache c) k = Some v \<Longrightarrow> map_of (cache (snd (get c k))) k = Some v"
  using map_of_refreshed [of k "cache c" v] by (simp add: get_def move_to_end_def)

lemma map_of_put:
  assumes "1 \<le> max_size c"
  shows "map_of (cache (put c k v)) k = Some v"
proof (cases "map_of (cache c) k")
  case None
  show ?thesis
  proof (cases "cache c")
    case Nil
    with None assms show ?thesis by (simp add: put_absent)
  next
    case (Cons e rest)
    with None have "fst e \<noteq> k \<and> map_of rest k = None"
      by (cases e) (auto split: if_splits)
    with None Cons show ?thesis by (cases e) (auto simp: put_absent map_add_def)
  qed
next
  case (Some v0)
  then show ?thesis
    using refresh_shape [OF Some, of v] map_of_refreshed [of k "cache c" v] by simp
qed

lemma translate_cache_hit:
  assumes "strip U text \<noteq> []" "map_of (cache (tr_cache st)) (strip U text) = Some v"
  shows "translate U P st text True =
           Inr (v, st\<lparr>tr_cache := snd (get (tr_cache st) (strip U text)),
                     last_source_text := strip U text, last_translation := v\<rparr>)"
  using assms by (simp add: translate_nonblank reuses_last_def)

text \<open>
  Claim C8, amended: two inputs that are equal after stripping leading and trailing
  whitespace (case kept) are the same text for the cache. For every translator whose
  cache has capacity at least 1, after a successful \<open>translate(a, force=True)\<close> on an
  input that is not blank (answered by the cache or by the provider), a following
  \<open>translate(b, force=True)\<close> with \<open>strip b = strip a\<close> returns the same translation and
  does not call the provider, whatever the provider would do.
\<close>

theorem cache_key_is_stripped_text:
  assumes "1 \<le> max_size (tr_cache st)"
    and "strip U a \<noteq> []"
    and "strip U b = strip U a"
    and "cached st (strip U a) \<or> \<not> provider_fails P st (strip U a)"
    and "translate U P st a True = Inr (r, st1)"
  shows "\<exists>st2. translate U P' st1 b True = Inr (r, st2) \<and>
               provider_calls st2 = provider_calls st1 \<and> translator st2 = translator st1"
proof -
  let ?k = "strip U a"
  have hit: "map_of (cache (tr_cache st1)) ?k = Some r"
  proof (cases "map_of (cache (tr_cache st)) ?k")
    case (Some v)
    from translate_cache_hit [OF assms(2) Some, of P] assms(5)
    have "r = v" "tr_cache st1 = snd (get (tr_cache st) ?k)" by auto
    then show ?thesis using map_of_get_hit [OF Some] by simp
  next
    case None
    then have ok: "translator st \<or> construct P" "respond P ?k \<noteq> None"
      using assms(4) by (auto simp: cached_def provider_fails_def)
    then obtain t where t: "respond P ?k = Some t" by auto
    have "translate U P st a True = Inr (perform_translation P st ?k)"
      using assms(2) None by (simp add: translate_nonblank reuses_last_def)
    with assms(5) ok t have "r = t" "tr_cache st1 = put (tr_cache st) ?k t"
      by (auto simp: perform_translation_def Let_def)
    then show ?thesis using map_of_put [OF assms(1), of ?k t] by simp
  qed
  have nb: "strip U b \<noteq> []" using assms(2,3) by simp
  from translate_cache_hit [OF nb, of st1 r P'] hit assms(3)
  show ?thesis by simp
qed


text \<open>
  Claim C8 as stated: two inputs that are equal after stripping and case folding are the
  same text for the cache. It fails: the key of the cache is the stripped text with its
  case kept. After \<open>translate("Ciao", force=True)\<close> the call
  \<open>translate("ciao", force=True)\<close> misses the cache and goes to the provider again.
\<close>

theorem cache_key_case_counterexample:
  "lower ascii (strip ascii (lit ''Ciao'')) = lower ascii (strip ascii (lit ''ciao'')) \<and>
   translate ascii demo_provider
     (Translator_init demo_provider (lit ''it'') (lit ''en'') 100 (17 / 20)) (lit ''Ciao'') True
     = Inr (lit ''hello'', demo_translator (17 / 20)) \<and>
   translate ascii demo_provider (demo_translator (17 / 20)) (lit ''ciao'') True
     = Inr (lit ''hello'',
            (demo_translator (17 / 20))
              \<lparr>tr_cache := \<lparr>max_size = 100,
                            cache = [(lit ''Ciao'', lit ''hello''), (lit ''ciao'', lit ''hello'')]\<rparr>,
               last_source_text := lit ''ciao'',
               provider_calls := [lit ''Ciao'', lit ''ciao'']\<rparr>)"
  by (simp add: translator_simps ascii_simps cache_simps)

theorem cache_key_is_stripped_text_witness:
  "translate ascii demo_provider
     (Translator_init demo_provider (lit ''it'') (lit ''en'') 100 (17 / 20)) (lit '' Ciao'') True
     = Inr (lit ''hello'', demo_translator (17 / 20)) \<and>
   strip ascii (lit ''Ciao  '') = strip ascii (lit '' Ciao'') \<and>
   (\<exists>st2. translate ascii failing_provider (demo_translator (17 / 20)) (lit ''Ciao  '') True
            = Inr (lit ''hello'', st2) \<and>
          provider_calls st2 = [lit ''Ciao''] \<and> translator st2)"
proof -
  let ?init = "Translator_init demo_provider (lit ''it'') (lit ''en'') 100 (17 / 20)"
  have 1: "1 \<le> max_size (tr_cache ?init)"
    by (simp add: Translator_init_def TranslationCache_init_def)
  have 2: "strip ascii (lit '' Ciao'') \<noteq> []" by (simp add: ascii_simps)
  have 3: "strip ascii (lit ''Ciao  '') = strip ascii (lit '' Ciao'')" by (simp add: ascii_simps)
  have 4: "cached ?init (strip ascii (lit '' Ciao'')) \<or>
           \<not> provider_fails demo_provider ?init (strip ascii (lit '' Ciao''))"
    by (simp add: provider_fails_def demo_provider_def)
  have 5: "translate ascii demo_provider ?init (lit '' Ciao'') True
           = Inr (lit ''hello'', demo_translator (17 / 20))"
    by (simp add: translator_simps ascii_simps cache_simps)
  have 6: "provider_calls (demo_translator (17 / 20)) = [lit ''Ciao'']"
    "translator (demo_translator (17 / 20))"
    by (simp_all add: demo_translator_def)
  from cache_key_is_stripped_text [OF 1 2 3 4 5, of failing_provider] 3 5
  show ?thesis by (auto simp: 6)
qed

text \<open>
  Claim C9 as stated: after every call that returns a translation, also one reused
  through the similarity shortcut, \<open>last_source_text\<close> is the normalized input of that
  call. It fails on the shortcut: with threshold 0.8 and last text \<open>Ciao\<close>, the input
  \<open>Ciao!\<close> is answered with the last translation and \<open>last_source_text\<close> stays \<open>Ciao\<close>.
\<close>

theorem state_after_reuse_counterexample:
  "strip ascii (lit ''Ciao!'') = lit ''Ciao!'' \<and>
   translate ascii demo_provider (demo_translator (4 / 5)) (lit ''Ciao!'') False
     = Inr (lit ''hello'', demo_translator (4 / 5)) \<and>
   last_source_text (demo_translator (4 / 5)) = lit ''Ciao'' \<and>
   lit ''Ciao'' \<noteq> lit ''Ciao!'' \<and>
   lit ''Ciao'' \<noteq> lower ascii (lit ''Ciao!'')"
  by (simp add: translator_simps ascii_simps lev_simps)

text \<open>
  Claim C9, amended: for every call of \<open>translate\<close> on an input that is not blank, if the
  translation comes from the cache or freshly from the provider, then afterwards
  \<open>last_source_text\<close> is the stripped input of that call and \<open>last_translation\<close> is the
  string returned; if the call is answered through the similarity shortcut, the translator
  is left unchanged: \<open>last_translation\<close> is the string returned and \<open>last_source_text\<close>
  keeps the text of the earlier translation.
\<close>

theorem coordinator_state_after_translate:
  assumes "strip U text \<noteq> []"
    and "translate U P st text force = Inr (r, st')"
  shows "(reuses_last U st (strip U text) force \<longrightarrow> st' = st \<and> r = last_translation st) \<and>
         (\<not> reuses_last U st (strip U text) force \<and>
          (cached st (strip U text) \<or> \<not> provider_fails P st (strip U text)) \<longrightarrow>
            last_source_text st' = strip U text \<and> last_translation st' = r)"
proof (cases "reuses_last U st (strip U text) force")
  case True
  then show ?thesis using assms by (auto simp: translate_nonblank)
next
  case False
  show ?thesis
  proof (cases "map_of (cache (tr_cache st)) (strip U text)")
    case (Some v)
    with False assms show ?thesis by (auto simp: translate_nonblank)
  next
    case None
    have pt: "perform_translation P st (strip U text) = (r, st')"
      using False None assms by (simp add: translate_nonblank)
    have "last_source_text st' = strip U text \<and> last_translation st' = r"
      if ok: "\<not> provider_fails P st (strip U text)"
    proof -
      from ok have c: "translator st \<or> construct P" and "respond P (strip U text) \<noteq> None"
        by (auto simp: provider_fails_def)
      then obtain t where "respond P (strip U text) = Some t" by auto
      with c pt show ?thesis by (auto simp: perform_translation_def Let_def)
    qed
    with False None show ?thesis by (simp add: cached_def)
  qed
qed

theorem coordinator_state_after_translate_witness:
  "translate ascii demo_provider (demo_translator (4 / 5)) (lit ''Ciao!'') False
     = Inr (lit ''hello'', demo_translator (4 / 5)) \<and>
   reuses_last ascii (demo_translator (4 / 5)) (strip ascii (lit ''Ciao!'')) False \<and>
   translate ascii demo_provider (demo_translator (4 / 5)) (lit ''Si'') False
     = Inr (lit ''hello'',
            (demo_translator (4 / 5))
              \<lparr>tr_cache := \<lparr>max_size = 100,
                            cache = [(lit ''Ciao'', lit ''hello''), (lit ''Si'', lit ''hello'')]\<rparr>,
               last_source_text := lit ''Si'',
               provider_calls := [lit ''Ciao'', lit ''Si'']\<rparr>) \<and>
   \<not> reuses_last ascii (demo_translator (4 / 5)) (strip ascii (lit ''Si'')) False \<and>
   \<not> provider_fails demo_provider (demo_translator (4 / 5)) (strip ascii (lit ''Si''))"
proof -
  let ?st = "demo_translator (4 / 5)"
  have s: "strip ascii (lit ''Ciao!'') = lit ''Ciao!''" "strip ascii (lit ''Si'') = lit ''Si''"
    "lit ''Ciao!'' \<noteq> []" "lit ''Si'' \<noteq> []"
    by (simp_all add: ascii_simps)
  have sim1: "calculate_text_similarity_levenshtein ascii (lit ''Ciao!'') (lit ''Ciao'') = Inr (4 / 5)"
    by (simp add: calculate_text_similarity_levenshtein_def ascii_simps lev_simps)
  have sim2: "calculate_text_similarity_levenshtein ascii (lit ''Si'') (lit ''Ciao'') = Inr (1 / 4)"
    by (simp add: calculate_text_similarity_levenshtein_def ascii_simps lev_simps)
  have f: "last_source_text ?st = lit ''Ciao''" "similarity_threshold ?st = 4 / 5"
    by (simp_all add: demo_translator_def)
  have r1: "reuses_last ascii ?st (lit ''Ciao!'') False"
    by (simp add: reuses_last_def f sim1) (simp add: lit_def)
  have r2: "\<not> reuses_last ascii ?st (lit ''Si'') False"
    by (simp add: reuses_last_def f sim2)
  have p: "\<not> provider_fails demo_provider ?st (lit ''Si'')"
    by (simp add: provider_fails_def demo_provider_def)
  have t1: "translate ascii demo_provider ?st (lit ''Ciao!'') False = Inr (lit ''hello'', ?st)"
    using s r1 by (simp add: translate_nonblank) (simp add: demo_translator_def)
  have t2: "translate ascii demo_provider ?st (lit ''Si'') False
     = Inr (lit ''hello'',
            ?st\<lparr>tr_cache := \<lparr>max_size = 100,
                            cache = [(lit ''Ciao'', lit ''hello''), (lit ''Si'', lit ''hello'')]\<rparr>,
               last_source_text := lit ''Si'',
               provider_calls := [lit ''Ciao'', lit ''Si'']\<rparr>)"
    using s r2
    by (simp add: translate_nonblank)
       (simp add: demo_translator_def demo_provider_def perform_translation_def cache_simps lit_def)
  from coordinator_state_after_translate [of ascii "lit ''Ciao!''" demo_provider ?st False, OF _ t1]
       coordinator_state_after_translate [of ascii "lit ''Si''" demo_provider ?st False, OF _ t2]
  show ?thesis using s r1 r2 p t1 t2 by simp
qed

subsection \<open>OCR\<close>

lemma extract_text_Returned:
  assumes "extract_text md5 U E st img language = (Returned s, st1)"
  shows "last_image_hash st1 = Some (md5 (tobytes img)) \<and> last_text st1 = s"
proof (cases "Some (md5 (tobytes img)) = last_image_hash st")
  case True
  with assms show ?thesis
    by (auto simp: extract_text_def calculate_image_hash_def Let_def)
next
  case False
  with assms show ?thesis
    by (auto simp: extract_text_def calculate_image_hash_def Let_def
        split: sum.splits ocr_exn.splits prod.splits if_splits)
qed

text \<open>
  Claim C10. OCR results are remembered per frame content. If a call of \<open>extract_text\<close>
  completes successfully (it returns the text it found or remembered), then the next call
  on an image with the same raw bytes returns the same string and leaves the engine as it
  is, so no call of the OCR library is recorded; the result does not depend on what the
  libraries would answer, on the size of the image or on the language. The hash of the
  raw bytes, stored by the first call, decides.
\<close>

theorem extract_text_memoized:
  assumes "extract_text md5 U E st img language = (Returned s, st1)"
    and "tobytes img' = tobytes img"
  shows "extract_text md5 U E' st1 img' language' = (Returned s, st1)"
  using extract_text_Returned [OF assms(1)] assms(2)
  by (simp add: extract_text_def calculate_image_hash_def)

theorem extract_text_memoized_witness:
  "extract_text id ascii demo_ocr demo_engine demo_image (lit ''eng'')
     = (Returned (lit ''Ciao I mondo''),
        \<lparr>preprocess = True, last_text = lit ''Ciao I mondo'',
         last_image_hash = Some [0, 255, 0, 255], ocr_calls = [7]\<rparr>) \<and>
   extract_text id ascii broken_ocr
     \<lparr>preprocess = True, last_text = lit ''Ciao I mondo'',
      last_image_hash = Some [0, 255, 0, 255], ocr_calls = [7]\<rparr>
     \<lparr>tobytes = [0, 255, 0, 255], width = 2, height = 2\<rparr> (lit ''ita'')
     = (Returned (lit ''Ciao I mondo''),
        \<lparr>preprocess = True, last_text = lit ''Ciao I mondo'',
         last_image_hash = Some [0, 255, 0, 255], ocr_calls = [7]\<rparr>)"
proof -
  let ?st1 = "\<lparr>preprocess = True, last_text = lit ''Ciao I mondo'',
         last_image_hash = Some [0, 255, 0, 255], ocr_calls = [7]\<rparr>"
  have 1: "extract_text id ascii demo_ocr demo_engine demo_image (lit ''eng'')
     = (Returned (lit ''Ciao I mondo''), ?st1)"
    by (simp add: extract_text_def calculate_image_hash_def demo_ocr_def demo_engine_def
        demo_image_def clean_ocr_text_def str_split_def ascii_simps setitem_def Let_def)
  have 2: "tobytes \<lparr>tobytes = [0, 255, 0, 255], width = 2, height = 2\<rparr> = tobytes demo_image"
    by (simp add: demo_image_def)
  from extract_text_memoized [OF 1 2, of broken_ocr "lit ''ita''"] 1
  show ?thesis by simp
qed

end
